theory Spec2Isabelle
  imports Complex_Main "HOL-Library.FSet" "HOL-Library.Word"
begin

section \<open>Data model\<close>

text \<open>
  The module \<^verbatim>\<open>src/PS1/src/algorithm.ts\<close> works on three shapes of data.

  \<^item> A \<^verbatim>\<open>Set<Flashcard>\<close> compares its members by object identity and never reads a
    card's fields, so the bucket functions are modelled over an arbitrary type \<open>'c\<close> of
    card references. A JavaScript set is finite: it is a \<open>'c fset\<close>, \<^verbatim>\<open>size\<close> is
    \<open>fcard\<close> and \<^verbatim>\<open>has\<close> is \<open>|\<in>|\<close>.
  \<^item> A \<^verbatim>\<open>BucketMap\<close> (\<^verbatim>\<open>Map<number, Set<Flashcard>>\<close>) iterates in insertion order
    and \<^verbatim>\<open>update\<close> depends on that order, so it is an association list. Bucket numbers
    are \<open>int\<close>: the code does not reject a negative key.
  \<^item> The dense form \<^verbatim>\<open>Array<Set<Flashcard>>\<close> is a list of finite sets.

  Bucket numbers, indices and counts are integers, which a JavaScript number represents
  exactly below \<open>2 ^ 53\<close>; the limits of an engine on the length of an array and on the
  number of arguments of a call are not part of the model.
\<close>

text \<open>
  Modelled from the spec: the enumeration \<^verbatim>\<open>AnswerDifficulty\<close> of \<^verbatim>\<open>flashcards.ts\<close>,
  which is not among the sources. The spec calls it a fixed three-valued outcome, and the
  code names its members \<^verbatim>\<open>Wrong\<close>, \<^verbatim>\<open>Hard\<close> and \<^verbatim>\<open>Easy\<close>.
\<close>

datatype AnswerDifficulty = Wrong | Hard | Easy

type_synonym 'c BucketMap = "(int \<times> 'c fset) list"

section \<open>toBucketSets\<close>


section \<open>getBucketRange\<close>

text \<open>
  The reducer collects, in increasing order, the indices whose set has a positive size.
  \<^verbatim>\<open>Math.min\<close> and \<^verbatim>\<open>Math.max\<close> are only reached when that list is non-empty.
\<close>

fun validBuckets :: "'c fset list \<Rightarrow> nat \<Rightarrow> nat list \<Rightarrow> nat list" where
  "validBuckets [] index acc = acc"
| "validBuckets (s # rest) index acc =
     validBuckets rest (Suc index) (if fcard s > 0 then acc @ [index] else acc)"

definition getBucketRange :: "'c fset list \<Rightarrow> (nat \<times> nat) option" where
  "getBucketRange buckets =
     (case validBuckets buckets 0 [] of
        [] \<Rightarrow> None
      | v # vs \<Rightarrow> Some (fold min vs v, fold max vs v))"

text \<open>The indices of a dense sequence whose set is non-empty.\<close>

definition occupied :: "'c fset list \<Rightarrow> nat set" where
  "occupied buckets = {i. i < length buckets \<and> buckets ! i \<noteq> {||}}"

section \<open>practice\<close>

text \<open>
  JavaScript's \<^verbatim>\<open>%\<close> truncates towards zero: the result has the sign of the dividend,
  and it is \<^verbatim>\<open>NaN\<close> (here \<open>None\<close>) for a zero divisor. \<^verbatim>\<open>-0 === 0\<close> holds, so a
  negative multiple compares equal to zero as well.
\<close>

definition jsRem :: "int \<Rightarrow> int \<Rightarrow> int option" where
  "jsRem a n = (if n = 0 then None else Some (sgn a * (\<bar>a\<bar> mod \<bar>n\<bar>)))"

fun practiceLoop :: "'c fset list \<Rightarrow> nat \<Rightarrow> int \<Rightarrow> 'c fset \<Rightarrow> 'c fset" where
  "practiceLoop [] index day practiceBuckets = practiceBuckets"
| "practiceLoop (bucket # rest) index day practiceBuckets =
     practiceLoop rest (Suc index) day
       (if index > 0 \<and> fcard bucket > 0 \<and> jsRem day (int index) = Some 0
        then practiceBuckets |\<union>| bucket
        else practiceBuckets)"

definition practice :: "'c fset list \<Rightarrow> int \<Rightarrow> 'c fset" where
  "practice buckets day =
     practiceLoop buckets 0 day (case buckets of [] \<Rightarrow> {||} | b0 # _ \<Rightarrow> {||} |\<union>| b0)"

section \<open>Map.prototype.set\<close>

text \<open>
  \<^verbatim>\<open>map.set(k, v)\<close> replaces the value of an existing key in place and appends a new key
  at the end of the iteration order.
\<close>

fun mapSet :: "('k \<times> 'v) list \<Rightarrow> 'k \<Rightarrow> 'v \<Rightarrow> ('k \<times> 'v) list" where
  "mapSet [] k v = [(k, v)]"
| "mapSet ((k', v') # m) k v =
     (if k' = k then (k', v) # m else (k', v') # mapSet m k v)"

section \<open>update\<close>

text \<open>
  \<^verbatim>\<open>update\<close> copies the \<^verbatim>\<open>Map\<close> and every \<^verbatim>\<open>Set\<close> in it and then mutates the copies.
  Whether the caller's objects are touched depends on which object each reference
  denotes, so the objects live in a store: a list of objects, in which an address is an
  index and \<^verbatim>\<open>new\<close> appends. A \<^verbatim>\<open>Map\<close> object holds its entries in insertion order, each a
  bucket number and the address of a \<^verbatim>\<open>Set\<close> object.
\<close>

type_synonym addr = nat

datatype 'c obj = SetObj "'c fset" | MapObj "(int \<times> addr) list"

type_synonym 'c store = "'c obj list"

definition alloc :: "'c store \<Rightarrow> 'c obj \<Rightarrow> 'c store \<times> addr" where
  "alloc h ob = (h @ [ob], length h)"

text \<open>
  Reading the object behind a reference. A reference held by a JavaScript value is never
  dangling and has the type its static type says; the other branches only make the
  functions total.
\<close>

definition setAt :: "'c store \<Rightarrow> addr \<Rightarrow> 'c fset" where
  "setAt h a =
     (if a < length h then (case h ! a of SetObj s \<Rightarrow> s | MapObj es \<Rightarrow> {||}) else {||})"

definition mapAt :: "'c store \<Rightarrow> addr \<Rightarrow> (int \<times> addr) list" where
  "mapAt h a =
     (if a < length h then (case h ! a of MapObj es \<Rightarrow> es | SetObj s \<Rightarrow> []) else [])"

text \<open>
  \<^verbatim>\<open>Array.from(buckets.entries()).map(([bucket, cards]) => [bucket, new Set(cards)])\<close>:
  one fresh \<^verbatim>\<open>Set\<close> per entry, with the members of the original.
\<close>

fun copySets :: "'c store \<Rightarrow> (int \<times> addr) list \<Rightarrow> 'c store \<times> (int \<times> addr) list" where
  "copySets h [] = (h, [])"
| "copySets h ((bucket, cards) # rest) =
     (let (h1, cards') = alloc h (SetObj (setAt h cards));
          (h2, rest') = copySets h1 rest
      in (h2, (bucket, cards') # rest'))"

text \<open>\<^verbatim>\<open>new Map(pairs)\<close> sets the pairs one after the other.\<close>

definition newMap :: "(int \<times> addr) list \<Rightarrow> (int \<times> addr) list" where
  "newMap pairs = foldl (\<lambda>m (k, v). mapSet m k v) [] pairs"

text \<open>
  The \<^verbatim>\<open>for\<close> loop up to its \<^verbatim>\<open>break\<close>: the first entry, in iteration order, whose set
  has the card.
\<close>

fun findCard :: "'c store \<Rightarrow> (int \<times> addr) list \<Rightarrow> 'c \<Rightarrow> (int \<times> addr) option" where
  "findCard h [] c = None"
| "findCard h ((bucket, cards) # rest) c =
     (if c |\<in>| setAt h cards then Some (bucket, cards) else findCard h rest c)"

text \<open>
  The four blocks of the function body, each named after its comment in the source:
  the deep copy, the scan that removes the card from the first set that has it, the
  creation of a missing destination bucket, and the insertion.
\<close>

definition copyBuckets :: "'c store \<Rightarrow> addr \<Rightarrow> 'c store \<times> addr" where
  "copyBuckets h buckets =
     (let (h1, pairs) = copySets h (mapAt h buckets)
      in alloc h1 (MapObj (newMap pairs)))"

definition removeCard :: "'c store \<Rightarrow> addr \<Rightarrow> 'c \<Rightarrow> 'c store \<times> int option" where
  "removeCard h updatedBuckets c =
     (case findCard h (mapAt h updatedBuckets) c of
        Some (bucket, cards) \<Rightarrow> (h[cards := SetObj (setAt h cards |-| {|c|})], Some bucket)
      | None \<Rightarrow> (h, None))"

definition ensureBucket :: "'c store \<Rightarrow> addr \<Rightarrow> int \<Rightarrow> 'c store" where
  "ensureBucket h updatedBuckets newBucket =
     (if map_of (mapAt h updatedBuckets) newBucket = None
      then (let (h', fresh) = alloc h (SetObj {||})
            in h'[updatedBuckets := MapObj (mapSet (mapAt h' updatedBuckets) newBucket fresh)])
      else h)"

definition addCard :: "'c store \<Rightarrow> addr \<Rightarrow> int \<Rightarrow> 'c \<Rightarrow> 'c store" where
  "addCard h updatedBuckets newBucket c =
     (case map_of (mapAt h updatedBuckets) newBucket of
        Some cards \<Rightarrow> h[cards := SetObj (finsert c (setAt h cards))]
      | None \<Rightarrow> h)"

text \<open>
  The destination bucket: \<^verbatim>\<open>currentBucket\<close> is 0 when the scan found nothing, and the
  \<^verbatim>\<open>switch\<close> maps the difficulty. Its \<^verbatim>\<open>default\<close> branch is not reachable with a
  three-valued difficulty.
\<close>

definition destination :: "AnswerDifficulty \<Rightarrow> int option \<Rightarrow> int" where
  "destination difficulty found =
     (let currentBucket = (case found of None \<Rightarrow> 0 | Some bucket \<Rightarrow> bucket)
      in case difficulty of Wrong \<Rightarrow> 0 | Hard \<Rightarrow> currentBucket | Easy \<Rightarrow> currentBucket + 1)"

text \<open>
  \<^verbatim>\<open>update\<close> takes the store and the address of the caller's \<^verbatim>\<open>Map\<close> and returns the
  new store and the address of the \<^verbatim>\<open>Map\<close> it built. The parameter \<^verbatim>\<open>card\<close> is called
  \<open>c\<close>.
\<close>

definition update :: "'c store \<Rightarrow> addr \<Rightarrow> 'c \<Rightarrow> AnswerDifficulty \<Rightarrow> 'c store \<times> addr" where
  "update h buckets c difficulty =
     (let (h1, updatedBuckets) = copyBuckets h buckets;
          (h2, found) = removeCard h1 updatedBuckets c;
          newBucket = destination difficulty found;
          h3 = ensureBucket h2 updatedBuckets newBucket;
          h4 = addCard h3 updatedBuckets newBucket c
      in (h4, updatedBuckets))"

text \<open>
  What a \<^verbatim>\<open>Map\<close> reference denotes in a store: its entries, each with the members of its
  set.
\<close>

definition contents :: "'c store \<Rightarrow> addr \<Rightarrow> 'c BucketMap" where
  "contents h m = map (\<lambda>(k, a). (k, setAt h a)) (mapAt h m)"

text \<open>
  A store is well formed for a \<^verbatim>\<open>Map\<close> reference when the reference denotes a \<^verbatim>\<open>Map\<close>
  object whose keys are distinct and whose values denote \<^verbatim>\<open>Set\<close> objects.
\<close>

definition isSet :: "'c store \<Rightarrow> addr \<Rightarrow> bool" where
  "isSet h a = (a < length h \<and> (case h ! a of SetObj s \<Rightarrow> True | MapObj es \<Rightarrow> False))"

definition isMap :: "'c store \<Rightarrow> addr \<Rightarrow> bool" where
  "isMap h a = (a < length h \<and> (case h ! a of MapObj es \<Rightarrow> True | SetObj s \<Rightarrow> False))"

definition wellFormed :: "'c store \<Rightarrow> addr \<Rightarrow> bool" where
  "wellFormed h m \<longleftrightarrow>
     isMap h m \<and> distinct (map fst (mapAt h m)) \<and> (\<forall>a \<in> set (map snd (mapAt h m)). isSet h a)"

text \<open>
  The store during a call: the caller's store \<open>h\<close> followed by new objects, among them the
  \<^verbatim>\<open>Map\<close> at \<open>m\<close>, whose sets are new objects different from one another.
\<close>

definition builtOn :: "'c store \<Rightarrow> 'c store \<Rightarrow> addr \<Rightarrow> bool" where
  "builtOn h H m \<longleftrightarrow>
     take (length h) H = h \<and> length h \<le> m \<and> wellFormed H m \<and>
     distinct (map snd (mapAt H m)) \<and> (\<forall>a \<in> set (map snd (mapAt H m)). length h \<le> a)"

text \<open>
  \<^verbatim>\<open>buckets.get(k)?.has(x)\<close> on the denoted mapping, and the bucket the scan of \<^verbatim>\<open>update\<close>
  finds for a card: the first one in iteration order that has it.
\<close>

definition inBucket :: "'c BucketMap \<Rightarrow> int \<Rightarrow> 'c \<Rightarrow> bool" where
  "inBucket bm k x = (case map_of bm k of Some s \<Rightarrow> x |\<in>| s | None \<Rightarrow> False)"

fun firstBucket :: "'c BucketMap \<Rightarrow> 'c \<Rightarrow> int option" where
  "firstBucket [] c = None"
| "firstBucket ((k, s) # rest) c = (if c |\<in>| s then Some k else firstBucket rest c)"

text \<open>Each card occupies at most one bucket: the sets are pairwise disjoint.\<close>

fun disjointSets :: "'c fset list \<Rightarrow> bool" where
  "disjointSets [] = True"
| "disjointSets (s # rest) = ((\<forall>t \<in> set rest. s |\<inter>| t = {||}) \<and> disjointSets rest)"

text \<open>
  The effect of \<^verbatim>\<open>update\<close> on the denoted mapping: the card leaves the first bucket
  that has it, the destination bucket is appended when it is missing, and the card
  joins the destination.
\<close>

definition modify :: "'c BucketMap \<Rightarrow> int \<Rightarrow> ('c fset \<Rightarrow> 'c fset) \<Rightarrow> 'c BucketMap" where
  "modify bm k f = map (\<lambda>(k', s). if k' = k then (k', f s) else (k', s)) bm"

definition updated :: "'c BucketMap \<Rightarrow> 'c \<Rightarrow> AnswerDifficulty \<Rightarrow> 'c BucketMap" where
  "updated bm c difficulty =
     (let found = firstBucket bm c;
          bm1 = (case found of None \<Rightarrow> bm | Some bucket \<Rightarrow> modify bm bucket (\<lambda>s. s |-| {|c|}));
          newBucket = destination difficulty found;
          bm2 = (if map_of bm1 newBucket = None then bm1 @ [(newBucket, {||})] else bm1)
      in modify bm2 newBucket (finsert c))"

text \<open>
  A store for examples: the mapping with an empty bucket 0 and the card 10 in bucket 2,
  as in the tests of \<^verbatim>\<open>update\<close>, and the store after the card was answered \<^verbatim>\<open>Easy\<close>.
\<close>

definition exampleStore :: "nat store" where
  "exampleStore = [SetObj {||}, SetObj {|10|}, MapObj [(0, 0), (2, 1)]]"

definition exampleResult :: "nat store" where
  "exampleResult =
     [SetObj {||}, SetObj {|10|}, MapObj [(0, 0), (2, 1)],
      SetObj {||}, SetObj {||}, MapObj [(0, 3), (2, 4), (3, 6)], SetObj {|10|}]"

section \<open>computeProgress\<close>

text \<open>
  A JavaScript number is an IEEE double. The counts and the bucket sum are integers, which
  doubles represent exactly below \<open>2 ^ 53\<close>; they are \<open>nat\<close> and \<open>int\<close> here. The two
  quotients are modelled by their exact rational value, of which the double is the
  rounding. The field \<^verbatim>\<open>card\<close> of a history entry is called \<open>cardRef\<close>, since \<open>card\<close> is
  the cardinality of HOL.
\<close>

record 'c HistoryEntry =
  cardRef :: 'c
  timestamp :: int
  difficulty :: AnswerDifficulty







section \<open>Strings and flashcards\<close>

text \<open>
  A JavaScript string is a sequence of UTF-16 code units; \<^verbatim>\<open>length\<close>, indexing and a
  regular expression without the \<^verbatim>\<open>u\<close> flag all work on code units.
\<close>

type_synonym jsstring = "16 word list"

text \<open>
  The characters matched by \<^verbatim>\<open>\s\<close> and removed by \<^verbatim>\<open>trim\<close>: ECMAScript's WhiteSpace
  and LineTerminator code points.
\<close>

definition isWhiteSpace :: "16 word \<Rightarrow> bool" where
  "isWhiteSpace c \<longleftrightarrow>
     c \<in> {0x0009, 0x000A, 0x000B, 0x000C, 0x000D, 0x0020, 0x00A0, 0x1680,
          0x2028, 0x2029, 0x202F, 0x205F, 0x3000, 0xFEFF}
     \<or> (0x2000 \<le> c \<and> c \<le> 0x200A)"

text \<open>The class \<^verbatim>\<open>[a-zA-Z]\<close>.\<close>

definition isLetter :: "16 word \<Rightarrow> bool" where
  "isLetter c \<longleftrightarrow> (0x0041 \<le> c \<and> c \<le> 0x005A) \<or> (0x0061 \<le> c \<and> c \<le> 0x007A)"

definition trim :: "jsstring \<Rightarrow> jsstring" where
  "trim s = rev (dropWhile isWhiteSpace (rev (dropWhile isWhiteSpace s)))"

text \<open>
  \<^verbatim>\<open>s.split(/\s+/)\<close>: the text before the first run of whitespace, then the split of
  what follows the run. A string without whitespace, the empty one included, is a single
  word, so whitespace at either end of the string yields an empty word there.
\<close>

function splitWs :: "jsstring \<Rightarrow> jsstring list" where
  "splitWs s =
     (let word = takeWhile (\<lambda>c. \<not> isWhiteSpace c) s;
          rest = dropWhile (\<lambda>c. \<not> isWhiteSpace c) s
      in if rest = [] then [word]
         else word # splitWs (dropWhile isWhiteSpace rest))"
  by pat_completeness auto

termination
proof (relation "measure length")
  show "wf (measure length)" by simp
next
  fix s :: jsstring and word rest
  assume r: "rest = dropWhile (\<lambda>c. \<not> isWhiteSpace c) s" and ne: "rest \<noteq> []"
  from ne obtain c cs where cs: "rest = c # cs" by (cases rest) auto
  have "length (dropWhile isWhiteSpace rest) \<le> length cs"
  proof -
    from cs r have "isWhiteSpace c"
      using hd_dropWhile [of "\<lambda>c. \<not> isWhiteSpace c" s] by auto
    then have "dropWhile isWhiteSpace rest = dropWhile isWhiteSpace cs" by (simp add: cs)
    then show ?thesis by (simp add: length_dropWhile_le)
  qed
  moreover have "length rest \<le> length s" by (simp add: r length_dropWhile_le)
  ultimately show "(dropWhile isWhiteSpace rest, s) \<in> measure length"
    by (simp add: cs)
qed

declare splitWs.simps [simp del]

text \<open>\<^verbatim>\<open>words.join(sep)\<close>.\<close>

fun join :: "jsstring \<Rightarrow> jsstring list \<Rightarrow> jsstring" where
  "join sep [] = []"
| "join sep [w] = w"
| "join sep (w # ws) = w @ sep @ join sep ws"

text \<open>
  Modelled from the spec: the class \<^verbatim>\<open>Flashcard\<close> of \<^verbatim>\<open>flashcards.ts\<close>, which is not
  among the sources. The spec gives it a front, a back, an optional authored hint and
  tags; a field that may be absent is an \<open>option\<close>.
\<close>

record Flashcard =
  front :: jsstring
  "back" :: "jsstring option"
  hint :: "jsstring option"
  tags :: "jsstring list"

text \<open>The callback of \<^verbatim>\<open>words.map\<close>; \<open>0x5F\<close> is the underscore.\<close>

definition hintWord :: "jsstring \<Rightarrow> jsstring" where
  "hintWord word =
     (if length word = 0 then []
      else
        (let firstLetter = take 1 (dropWhile (\<lambda>c. \<not> isLetter c) word)
         in firstLetter @
              (if firstLetter \<noteq> [] then replicate (nat (max 0 (int (length word) - 1))) 0x5F
               else [])))"

text \<open>
  A string is truthy when it is present and not empty. \<open>0x20\<close> is the space. The
  parameter \<^verbatim>\<open>card\<close> is called \<open>flashcard\<close>, since \<open>card\<close> is the cardinality of HOL.
\<close>

definition getHint :: "Flashcard \<Rightarrow> jsstring" where
  "getHint flashcard =
     (case (case hint flashcard of
              None \<Rightarrow> None
            | Some h \<Rightarrow> if h \<noteq> [] \<and> trim h \<noteq> [] then Some h else None) of
        Some h \<Rightarrow> h
      | None \<Rightarrow>
          (case back flashcard of
             None \<Rightarrow> []
           | Some b \<Rightarrow>
               if b = [] then []
               else (let words = splitWs b;
                         hintWords = map hintWord words
                     in join [0x20] hintWords)))"


text \<open>
  The two notions the description of \<^verbatim>\<open>getHint\<close> uses: a card has an authored hint when
  the hint is present and keeps a character after trimming; the masked token of a word is
  its first letter followed by one underscore for each other character of the word, and
  is empty for a word without a letter.
\<close>

definition hasAuthoredHint :: "Flashcard \<Rightarrow> bool" where
  "hasAuthoredHint flashcard =
     (case hint flashcard of None \<Rightarrow> False | Some h \<Rightarrow> \<exists>c \<in> set h. \<not> isWhiteSpace c)"

definition maskedToken :: "jsstring \<Rightarrow> jsstring" where
  "maskedToken w =
     (case List.find isLetter w of
        None \<Rightarrow> []
      | Some l \<Rightarrow> l # replicate (length w - 1) 0x5F)"

section \<open>Properties of practice\<close>

lemma jsRem_zero_iff: "n \<noteq> 0 \<Longrightarrow> jsRem a n = Some 0 \<longleftrightarrow> a mod n = 0"
  by (auto simp: jsRem_def mod_eq_0_iff_dvd sgn_if)

lemma fcard_pos_iff: "0 < fcard s \<longleftrightarrow> s \<noteq> {||}"
  by (cases "s = {||}") (auto simp: fcard_0_eq)

lemma ex_less_length_Cons:
  "(\<exists>i < length (b # bs). P i) \<longleftrightarrow> P 0 \<or> (\<exists>i < length bs. P (Suc i))"
  by (auto simp: less_Suc_eq_0_disj)

lemma practiceLoop_member:
  "c |\<in>| practiceLoop bs k day acc \<longleftrightarrow>
     c |\<in>| acc \<or> (\<exists>i < length bs. c |\<in>| bs ! i \<and> 0 < k + i \<and> day mod int (k + i) = 0)"
proof (induction bs arbitrary: k acc)
  case Nil
  then show ?case by simp
next
  case (Cons b bs)
  have step: "c |\<in>| (if 0 < k \<and> 0 < fcard b \<and> jsRem day (int k) = Some 0 then acc |\<union>| b else acc)
      \<longleftrightarrow> c |\<in>| acc \<or> (c |\<in>| b \<and> 0 < k \<and> day mod int k = 0)"
    by (cases "k = 0") (auto simp: jsRem_zero_iff fcard_pos_iff)
  show ?case
    unfolding practiceLoop.simps Cons.IH step ex_less_length_Cons
    by simp
qed

lemma practice_member:
  "c |\<in>| practice buckets day \<longleftrightarrow>
     (\<exists>i < length buckets. c |\<in>| buckets ! i \<and> (i = 0 \<or> (0 < i \<and> day mod int i = 0)))"
proof (cases buckets)
  case Nil
  then show ?thesis by (simp add: practice_def)
next
  case (Cons b bs)
  show ?thesis
    unfolding Cons practice_def practiceLoop_member ex_less_length_Cons
    by auto
qed

lemma ffUnion_member: "c |\<in>| ffUnion A \<longleftrightarrow> (\<exists>s. s |\<in>| A \<and> c |\<in>| s)"
  unfolding ffUnion.rep_eq by blast

lemma practice_cases:
  "c |\<in>| practice buckets day \<longleftrightarrow>
      (buckets \<noteq> [] \<and> c |\<in>| buckets ! 0) \<or>
      (\<exists>i. 0 < i \<and> i < length buckets \<and> c |\<in>| buckets ! i \<and> day mod int i = 0)"
proof -
  have "(\<exists>i < length buckets. c |\<in>| buckets ! i \<and> (i = 0 \<or> (0 < i \<and> day mod int i = 0)))
      \<longleftrightarrow> (0 < length buckets \<and> c |\<in>| buckets ! 0) \<or>
          (\<exists>i. 0 < i \<and> i < length buckets \<and> c |\<in>| buckets ! i \<and> day mod int i = 0)"
    (is "?L \<longleftrightarrow> ?A \<or> ?B")
  proof
    assume ?L
    then obtain i where i: "i < length buckets" "c |\<in>| buckets ! i"
      "i = 0 \<or> (0 < i \<and> day mod int i = 0)" by auto
    show "?A \<or> ?B"
    proof (cases "i = 0")
      case True
      with i have ?A by simp
      then show ?thesis ..
    next
      case False
      with i have "0 < i \<and> i < length buckets \<and> c |\<in>| buckets ! i \<and> day mod int i = 0"
        by simp
      then have ?B ..
      then show ?thesis ..
    qed
  next
    assume "?A \<or> ?B"
    then show ?L
    proof
      assume ?A
      then have "0 < length buckets \<and> c |\<in>| buckets ! 0 \<and> ((0::nat) = 0 \<or> (0 < (0::nat) \<and> day mod int 0 = 0))"
        by simp
      then show ?L by (rule exI [of _ 0])
    next
      assume ?B
      then obtain i where "0 < i" "i < length buckets" "c |\<in>| buckets ! i" "day mod int i = 0"
        by auto
      then have "i < length buckets \<and> c |\<in>| buckets ! i \<and> (i = 0 \<or> (0 < i \<and> day mod int i = 0))"
        by simp
      then show ?L by (rule exI [of _ i])
    qed
  qed
  then show ?thesis
    by (simp only: practice_member length_greater_0_conv)
qed

text \<open>
  Claim C3. For every dense bucket sequence and every integer day, negative and zero
  included, a card is selected by \<^verbatim>\<open>practice\<close> exactly when it is in bucket 0, or in
  some bucket \<open>i > 0\<close> with \<open>day mod i = 0\<close>; so the result always contains bucket 0.
\<close>

theorem practice_membership:
  "(c |\<in>| practice buckets day \<longleftrightarrow>
      (buckets \<noteq> [] \<and> c |\<in>| buckets ! 0) \<or>
      (\<exists>i. 0 < i \<and> i < length buckets \<and> c |\<in>| buckets ! i \<and> day mod int i = 0))
   \<and> (buckets \<noteq> [] \<longrightarrow> buckets ! 0 |\<subseteq>| practice buckets day)"
proof (intro conjI impI)
  show "c |\<in>| practice buckets day \<longleftrightarrow>
      (buckets \<noteq> [] \<and> c |\<in>| buckets ! 0) \<or>
      (\<exists>i. 0 < i \<and> i < length buckets \<and> c |\<in>| buckets ! i \<and> day mod int i = 0)"
    by (rule practice_cases)
next
  assume ne: "buckets \<noteq> []"
  show "buckets ! 0 |\<subseteq>| practice buckets day"
  proof (rule fsubsetI)
    fix x
    assume "x |\<in>| buckets ! 0"
    with ne have "(buckets \<noteq> [] \<and> x |\<in>| buckets ! 0) \<or>
      (\<exists>i. 0 < i \<and> i < length buckets \<and> x |\<in>| buckets ! i \<and> day mod int i = 0)"
      by (intro disjI1 conjI)
    then show "x |\<in>| practice buckets day"
      by (rule iffD2 [OF practice_cases])
  qed
qed

text \<open>On day \<open>-4\<close> bucket 2 is due and bucket 0 is included.\<close>

theorem practice_membership_witness:
  "(30::nat) |\<in>| practice [{|10|}, {|20|}, {|30|}] (-4)
   \<and> [{|10::nat|}, {|20|}, {|30|}] ! 0 |\<subseteq>| practice [{|10|}, {|20|}, {|30|}] (-4)"
proof -
  let ?bs = "[{|10::nat|}, {|20|}, {|30|}]"
  have ex: "\<exists>i. 0 < i \<and> i < length ?bs \<and> 30 |\<in>| ?bs ! i \<and> (-4::int) mod int i = 0"
    by (rule exI [of _ 2]) simp
  have due: "30 |\<in>| practice ?bs (-4)"
    by (rule iffD2 [OF conjunct1 [OF practice_membership]], rule disjI2, rule ex)
  have sup: "?bs ! 0 |\<subseteq>| practice ?bs (-4)"
    by (rule mp [OF conjunct2 [OF practice_membership]]) simp
  show ?thesis using due sup by (rule conjI)
qed

text \<open>
  Claim C4. On day 0 \<^verbatim>\<open>practice\<close> returns the union of the cards of every non-empty
  bucket of the sequence.
\<close>

theorem practice_day_zero:
  "practice buckets 0 = ffUnion (fset_of_list (filter (\<lambda>b. b \<noteq> {||}) buckets))"
proof (rule fset_eqI)
  fix c
  have "c |\<in>| practice buckets 0 \<longleftrightarrow> (\<exists>i < length buckets. c |\<in>| buckets ! i)"
    unfolding practice_member by auto
  also have "\<dots> \<longleftrightarrow> (\<exists>s \<in> set buckets. c |\<in>| s)"
    by (metis in_set_conv_nth)
  also have "\<dots> \<longleftrightarrow> c |\<in>| ffUnion (fset_of_list (filter (\<lambda>b. b \<noteq> {||}) buckets))"
    by (auto simp: ffUnion_member fset_of_list_elem)
  finally show "c |\<in>| practice buckets 0 \<longleftrightarrow>
      c |\<in>| ffUnion (fset_of_list (filter (\<lambda>b. b \<noteq> {||}) buckets))" .
qed

text \<open>Day 0 on three buckets, the middle one empty.\<close>

theorem practice_day_zero_witness:
  "practice [{|10::nat|}, {||}, {|20, 30|}] 0 = {|10, 20, 30|}"
proof -
  have "ffUnion (fset_of_list (filter (\<lambda>b. b \<noteq> {||}) [{|10::nat|}, {||}, {|20, 30|}]))
          = {|10, 20, 30|}"
    by (simp add: fset_of_list_simps) auto
  then show ?thesis
    by (simp only: practice_day_zero)
qed

section \<open>Properties of getBucketRange\<close>

lemma occupied_Nil: "occupied [] = {}"
  by (simp add: occupied_def)

lemma occupied_Cons:
  "occupied (b # bs) = (if b = {||} then {} else {0}) \<union> Suc ` occupied bs"
proof (rule set_eqI)
  fix i
  show "i \<in> occupied (b # bs) \<longleftrightarrow> i \<in> (if b = {||} then {} else {0}) \<union> Suc ` occupied bs"
  proof (cases i)
    case 0
    then show ?thesis by (simp add: occupied_def)
  next
    case (Suc j)
    then show ?thesis by (simp add: occupied_def image_iff)
  qed
qed

lemma set_validBuckets_from:
  "set (validBuckets bs k acc) = set acc \<union> (\<lambda>i. k + i) ` occupied bs"
proof (induction bs arbitrary: k acc)
  case Nil
  then show ?case by (simp add: occupied_Nil)
next
  case (Cons b bs)
  have img: "(\<lambda>i. k + i) ` Suc ` occupied bs = (\<lambda>i. Suc k + i) ` occupied bs"
    by (simp add: image_image)
  show ?case
  proof (cases "b = {||}")
    case True
    then show ?thesis
      by (simp add: Cons.IH occupied_Cons img fcard_fempty del: add_Suc)
  next
    case False
    then have "0 < fcard b" by (simp add: fcard_pos_iff)
    then show ?thesis
      using False by (simp add: Cons.IH occupied_Cons img image_Un Un_assoc del: add_Suc)
  qed
qed

lemma set_validBuckets: "set (validBuckets bs 0 []) = occupied bs"
  by (simp add: set_validBuckets_from)

lemma getBucketRange_None: "getBucketRange bs = None \<longleftrightarrow> occupied bs = {}"
proof -
  have "getBucketRange bs = None \<longleftrightarrow> validBuckets bs 0 [] = []"
    by (simp add: getBucketRange_def split: list.split)
  also have "\<dots> \<longleftrightarrow> set (validBuckets bs 0 []) = {}"
    by simp
  finally show ?thesis by (simp only: set_validBuckets)
qed

lemma getBucketRange_Some:
  assumes "occupied bs \<noteq> {}"
  shows "getBucketRange bs = Some (Min (occupied bs), Max (occupied bs))"
proof -
  from assms obtain v vs where vs: "validBuckets bs 0 [] = v # vs"
    by (cases "validBuckets bs 0 []") (auto simp: set_validBuckets [symmetric])
  have "set (v # vs) = occupied bs"
    by (simp only: vs [symmetric] set_validBuckets)
  then have "Min (occupied bs) = fold min vs v" "Max (occupied bs) = fold max vs v"
    by (simp_all only: Min.set_eq_fold [symmetric] Max.set_eq_fold [symmetric])
  then show ?thesis
    by (simp add: getBucketRange_def vs)
qed

lemma occupied_empty_iff: "occupied bs = {} \<longleftrightarrow> (bs = [] \<or> (\<forall>s \<in> set bs. s = {||}))"
proof
  assume e: "occupied bs = {}"
  have "s = {||}" if "s \<in> set bs" for s
  proof (rule ccontr)
    assume ne: "s \<noteq> {||}"
    from that obtain i where "i < length bs" "bs ! i = s"
      by (auto simp: in_set_conv_nth)
    with ne have "i \<in> occupied bs" by (simp add: occupied_def)
    with e show False by simp
  qed
  then show "bs = [] \<or> (\<forall>s \<in> set bs. s = {||})" by simp
next
  assume "bs = [] \<or> (\<forall>s \<in> set bs. s = {||})"
  then have "\<forall>s \<in> set bs. s = {||}" by auto
  then have "bs ! i = {||}" if "i < length bs" for i
    using that nth_mem by auto
  then show "occupied bs = {}" by (simp add: occupied_def)
qed

text \<open>
  Claim C6. \<^verbatim>\<open>getBucketRange\<close> returns undefined exactly when the sequence is empty or
  all of its sets are empty; otherwise it returns the least and the greatest index whose
  set is non-empty, and both are \<open>k\<close> when \<open>k\<close> is the only such index.
\<close>

theorem getBucketRange_spec:
  "(getBucketRange buckets = None \<longleftrightarrow> (buckets = [] \<or> (\<forall>s \<in> set buckets. s = {||})))
   \<and> (getBucketRange buckets \<noteq> None \<longrightarrow>
        getBucketRange buckets = Some (Min (occupied buckets), Max (occupied buckets)))
   \<and> (\<forall>k. occupied buckets = {k} \<longrightarrow> getBucketRange buckets = Some (k, k))"
proof (intro conjI impI allI)
  show "getBucketRange buckets = None \<longleftrightarrow> (buckets = [] \<or> (\<forall>s \<in> set buckets. s = {||}))"
    by (simp only: getBucketRange_None occupied_empty_iff)
next
  assume "getBucketRange buckets \<noteq> None"
  then have "occupied buckets \<noteq> {}" by (simp only: getBucketRange_None not_False_eq_True)
  then show "getBucketRange buckets = Some (Min (occupied buckets), Max (occupied buckets))"
    by (rule getBucketRange_Some)
next
  fix k
  assume k: "occupied buckets = {k}"
  then have "occupied buckets \<noteq> {}" by simp
  then have "getBucketRange buckets = Some (Min (occupied buckets), Max (occupied buckets))"
    by (rule getBucketRange_Some)
  then show "getBucketRange buckets = Some (k, k)"
    by (simp add: k)
qed

lemma occupied_example: "occupied [{||}, {|10::nat|}, {||}] = {1}"
  by (simp add: occupied_Cons occupied_Nil)

text \<open>One occupied bucket at index 1, and a sequence of two empty sets.\<close>

theorem getBucketRange_spec_witness:
  "getBucketRange [{||}, {|10::nat|}, {||}] = Some (1, 1)
   \<and> getBucketRange [{||}, {||} :: nat fset] = None"
proof -
  have one: "getBucketRange [{||}, {|10::nat|}, {||}] = Some (1, 1)"
    by (rule mp [OF spec [OF conjunct2 [OF conjunct2 [OF getBucketRange_spec]]] occupied_example])
  have "[{||}, {||} :: nat fset] = [] \<or> (\<forall>s \<in> set [{||}, {||} :: nat fset]. s = {||})"
    by simp
  then have none: "getBucketRange [{||}, {||} :: nat fset] = None"
    by (rule iffD2 [OF conjunct1 [OF getBucketRange_spec]])
  show ?thesis using one none by (rule conjI)
qed

section \<open>Properties of toBucketSets\<close>






section \<open>Properties of computeProgress\<close>

lemma mapSet_fresh: "k \<notin> fst ` set m \<Longrightarrow> mapSet m k v = m @ [(k, v)]"
  by (induction m) auto









section \<open>Properties of getHint\<close>

lemma splitWs_unfold:
  "splitWs s =
     (if dropWhile (\<lambda>c. \<not> isWhiteSpace c) s = [] then [takeWhile (\<lambda>c. \<not> isWhiteSpace c) s]
      else takeWhile (\<lambda>c. \<not> isWhiteSpace c) s
             # splitWs (dropWhile isWhiteSpace (dropWhile (\<lambda>c. \<not> isWhiteSpace c) s)))"
  by (subst splitWs.simps) (simp add: Let_def)

lemma splitWs_last:
  assumes "dropWhile (\<lambda>c. \<not> isWhiteSpace c) s = []"
  shows "splitWs s = [takeWhile (\<lambda>c. \<not> isWhiteSpace c) s]"
  by (rule trans [OF splitWs_unfold]) (simp only: assms if_True simp_thms)

lemma splitWs_more:
  assumes "dropWhile (\<lambda>c. \<not> isWhiteSpace c) s \<noteq> []"
  shows "splitWs s = takeWhile (\<lambda>c. \<not> isWhiteSpace c) s
                 # splitWs (dropWhile isWhiteSpace (dropWhile (\<lambda>c. \<not> isWhiteSpace c) s))"
proof -
  from assms have c: "(dropWhile (\<lambda>c. \<not> isWhiteSpace c) s = []) = False"
    by (rule eq_False [THEN iffD2])
  show ?thesis
    by (rule trans [OF splitWs_unfold]) (simp only: c if_False)
qed







lemma splitWs_whitespace_only:
  assumes "s \<noteq> []" and "\<forall>c \<in> set s. isWhiteSpace c"
  shows "splitWs s = [[], []]"
proof -
  from assms have hd: "isWhiteSpace (hd s)" by simp
  with assms(1) have d: "dropWhile (\<lambda>c. \<not> isWhiteSpace c) s = s"
    by (simp add: dropWhile_eq_self_iff)
  from hd have t: "takeWhile (\<lambda>c. \<not> isWhiteSpace c) s = []"
    by (simp add: takeWhile_eq_Nil_iff)
  from assms(2) have e: "dropWhile isWhiteSpace s = []" by simp
  have n: "splitWs [] = [[]]" by (simp add: splitWs_last)
  have "splitWs s = takeWhile (\<lambda>c. \<not> isWhiteSpace c) s
      # splitWs (dropWhile isWhiteSpace (dropWhile (\<lambda>c. \<not> isWhiteSpace c) s))"
    by (rule splitWs_more) (simp only: d assms(1) not_False_eq_True)
  then show ?thesis
    by (simp only: d t e n)
qed

lemma trim_nonempty_iff: "trim h \<noteq> [] \<longleftrightarrow> (\<exists>c \<in> set h. \<not> isWhiteSpace c)"
proof -
  have "trim h = [] \<longleftrightarrow> (\<forall>c \<in> set (dropWhile isWhiteSpace h). isWhiteSpace c)"
    by (simp add: trim_def)
  also have "\<dots> \<longleftrightarrow> dropWhile isWhiteSpace h = []"
  proof
    assume a: "\<forall>c \<in> set (dropWhile isWhiteSpace h). isWhiteSpace c"
    show "dropWhile isWhiteSpace h = []"
    proof (rule ccontr)
      assume ne: "dropWhile isWhiteSpace h \<noteq> []"
      then have "\<not> isWhiteSpace (hd (dropWhile isWhiteSpace h))" by (rule hd_dropWhile)
      moreover from ne have "hd (dropWhile isWhiteSpace h) \<in> set (dropWhile isWhiteSpace h)"
        by (rule hd_in_set)
      ultimately show False using a by simp
    qed
  next
    assume "dropWhile isWhiteSpace h = []"
    then show "\<forall>c \<in> set (dropWhile isWhiteSpace h). isWhiteSpace c"
      by (simp only: list.set ball_empty)
  qed
  also have "\<dots> \<longleftrightarrow> (\<forall>c \<in> set h. isWhiteSpace c)" by simp
  finally show ?thesis by simp
qed

lemma hintWord_maskedToken: "hintWord w = maskedToken w"
proof (cases "dropWhile (\<lambda>c. \<not> isLetter c) w")
  case Nil
  show ?thesis
    unfolding hintWord_def maskedToken_def find_dropWhile comp_def Nil by simp
next
  case (Cons l ls)
  then have "w \<noteq> []" by auto
  then have "nat (max 0 (int (length w) - 1)) = length w - 1" by (cases w) simp_all
  then show ?thesis
    unfolding hintWord_def maskedToken_def find_dropWhile comp_def Cons Let_def
    using \<open>w \<noteq> []\<close> by simp
qed


lemma getHint_generated:
  assumes "\<not> hasAuthoredHint flashcard"
  shows "getHint flashcard =
     (case back flashcard of
        None \<Rightarrow> []
      | Some b \<Rightarrow> if b = [] then [] else join [0x20] (map maskedToken (splitWs b)))"
proof -
  have "(case hint flashcard of None \<Rightarrow> None
         | Some h \<Rightarrow> if h \<noteq> [] \<and> trim h \<noteq> [] then Some h else None) = None"
  proof (cases "hint flashcard")
    case None
    then show ?thesis by simp
  next
    case (Some h)
    with assms have "\<not> (\<exists>c \<in> set h. \<not> isWhiteSpace c)" by (simp add: hasAuthoredHint_def)
    then have "trim h = []" by (simp only: trim_nonempty_iff [symmetric] not_not)
    then show ?thesis by (simp add: Some)
  qed
  then show ?thesis
    by (simp add: getHint_def hintWord_maskedToken [abs_def] Let_def split: option.split)
qed











text \<open>
  Claim C9. For a card without an authored hint whose back is not empty and consists of
  whitespace only, \<^verbatim>\<open>getHint\<close> returns one space: the split yields two empty words.
\<close>

theorem getHint_whitespace_back:
  assumes "\<not> hasAuthoredHint flashcard" and "back flashcard = Some b" and "b \<noteq> []"
    and "\<forall>c \<in> set b. isWhiteSpace c"
  shows "getHint flashcard = [0x20] \<and> splitWs b = [[], []]"
proof -
  have s: "splitWs b = [[], []]" using assms(3,4) by (rule splitWs_whitespace_only)
  have m: "maskedToken [] = []" by (simp add: maskedToken_def)
  have "getHint flashcard = [0x20]"
    by (simp add: getHint_generated [OF assms(1)] assms(2,3) s m)
  then show ?thesis using s by (rule conjI)
qed

lemma three_spaces_card:
  "\<not> hasAuthoredHint \<lparr>front = [], back = Some [0x20, 0x09, 0x20], hint = None, tags = []\<rparr>"
  by code_simp

lemma three_spaces_white: "\<forall>c \<in> set [0x20, 0x09, 0x20]. isWhiteSpace c"
  by code_simp

text \<open>The back made of a space, a tab and a space.\<close>

theorem getHint_whitespace_back_witness:
  "getHint \<lparr>front = [], back = Some [0x20, 0x09, 0x20], hint = None, tags = []\<rparr> = [0x20]"
proof -
  have b: "back \<lparr>front = [], back = Some [0x20, 0x09, 0x20], hint = None, tags = []\<rparr>
      = Some [0x20, 0x09, 0x20]" by simp
  have ne: "[0x20, 0x09, 0x20 :: 16 word] \<noteq> []" by simp
  from getHint_whitespace_back [OF three_spaces_card b ne three_spaces_white]
  show ?thesis by (rule conjunct1)
qed





section \<open>Properties of update\<close>

subsection \<open>The denoted mapping\<close>

lemma map_of_modify:
  "map_of (modify bm k f) j = (if j = k then map_option f (map_of bm k) else map_of bm j)"
  by (induction bm) (auto simp: modify_def)

lemma inBucket_modify:
  "inBucket (modify bm k f) j x \<longleftrightarrow>
     (if j = k then (case map_of bm k of Some s \<Rightarrow> x |\<in>| f s | None \<Rightarrow> False)
      else inBucket bm j x)"
  by (simp add: inBucket_def map_of_modify split: option.split)

lemma inBucket_append_empty:
  "inBucket (bm @ [(k, {||})]) j x \<longleftrightarrow> inBucket bm j x"
  by (simp add: inBucket_def map_add_def split: option.split)

lemma firstBucket_None: "firstBucket bm c = None \<Longrightarrow> \<not> inBucket bm k c"
proof (induction bm)
  case Nil
  then show ?case by (simp add: inBucket_def)
next
  case (Cons e bm)
  obtain j s where e: "e = (j, s)" by (cases e)
  from Cons.prems have n: "c |\<notin>| s" and r: "firstBucket bm c = None"
    by (simp_all add: e split: if_splits)
  from Cons.IH [OF r] n show ?case
    by (simp add: inBucket_def e)
qed

lemma firstBucket_Some:
  "distinct (map fst bm) \<Longrightarrow> firstBucket bm c = Some k \<Longrightarrow> inBucket bm k c"
proof (induction bm)
  case Nil
  then show ?case by simp
next
  case (Cons e bm)
  obtain j s where e: "e = (j, s)" by (cases e)
  show ?case
  proof (cases "c |\<in>| s")
    case True
    with Cons.prems(2) have "k = j" by (simp add: e)
    with True show ?thesis by (simp add: inBucket_def e)
  next
    case False
    with Cons.prems(2) have r: "firstBucket bm c = Some k" by (simp add: e)
    from Cons.prems(1) have d: "distinct (map fst bm)" and nj: "j \<notin> fst ` set bm"
      by (simp_all add: e)
    from Cons.IH [OF d r] have i: "inBucket bm k c" .
    then have "map_of bm k \<noteq> None" by (auto simp: inBucket_def split: option.splits)
    then have "k \<in> fst ` set bm" by (simp add: map_of_eq_None_iff)
    with nj have "k \<noteq> j" by auto
    with i show ?thesis by (simp add: inBucket_def e)
  qed
qed

lemma inBucket_set:
  assumes "distinct (map fst bm)"
  shows "inBucket bm k x \<longleftrightarrow> (\<exists>s. (k, s) \<in> set bm \<and> x |\<in>| s)"
proof (cases "map_of bm k")
  case None
  then have "k \<notin> fst ` set bm" by (simp add: map_of_eq_None_iff)
  then have "\<not> (\<exists>s. (k, s) \<in> set bm \<and> x |\<in>| s)" by force
  with None show ?thesis by (simp add: inBucket_def)
next
  case (Some t)
  have "(k, s) \<in> set bm \<longleftrightarrow> s = t" for s
    using map_of_eq_Some_iff [OF assms, of k s] Some by auto
  then show ?thesis by (simp add: inBucket_def Some)
qed

lemma disjointSets_unique:
  "distinct (map fst bm) \<Longrightarrow> disjointSets (map snd bm) \<Longrightarrow>
   inBucket bm k x \<Longrightarrow> inBucket bm j x \<Longrightarrow> k = j"
proof (induction bm)
  case Nil
  then show ?case by (simp add: inBucket_def)
next
  case (Cons e bm)
  obtain i s where e: "e = (i, s)" by (cases e)
  from Cons.prems(1) have d: "distinct (map fst bm)" and ni: "i \<notin> fst ` set bm"
    by (simp_all add: e)
  from Cons.prems(2) have dj: "disjointSets (map snd bm)"
    and sep: "\<forall>t \<in> set (map snd bm). s |\<inter>| t = {||}"
    by (simp_all add: e)
  have other: "x |\<notin>| s" if "inBucket bm l x" for l
  proof
    assume xs: "x |\<in>| s"
    from that d obtain t where t: "(l, t) \<in> set bm" "x |\<in>| t"
      by (auto simp: inBucket_set)
    then have "t \<in> set (map snd bm)" by force
    with sep have "s |\<inter>| t = {||}" by auto
    with xs t(2) show False by auto
  qed
  have split: "inBucket (e # bm) l x \<longleftrightarrow> (if l = i then x |\<in>| s else inBucket bm l x)" for l
    by (simp add: inBucket_def e)
  show ?case
  proof (cases "k = i")
    case True
    with Cons.prems(3) have xs: "x |\<in>| s" by (simp add: split)
    show ?thesis
    proof (cases "j = i")
      case True
      with \<open>k = i\<close> show ?thesis by simp
    next
      case False
      with Cons.prems(4) have "inBucket bm j x" by (simp add: split)
      from other [OF this] xs show ?thesis by simp
    qed
  next
    case False
    with Cons.prems(3) have kb: "inBucket bm k x" by (simp add: split)
    show ?thesis
    proof (cases "j = i")
      case True
      with Cons.prems(4) have "x |\<in>| s" by (simp add: split)
      with other [OF kb] show ?thesis by simp
    next
      case False
      with Cons.prems(4) have "inBucket bm j x" by (simp add: split)
      with Cons.IH [OF d dj kb] show ?thesis by simp
    qed
  qed
qed


lemma inBucket_modify_same:
  assumes "\<And>s. x |\<in>| f s \<longleftrightarrow> x |\<in>| s"
  shows "inBucket (modify bm k f) j x \<longleftrightarrow> inBucket bm j x"
proof (cases "j = k")
  case True
  show ?thesis
    by (cases "map_of bm k") (simp_all add: True map_of_modify inBucket_def assms)
next
  case False
  then show ?thesis by (simp add: inBucket_modify)
qed

lemma updated_unfold:
  "updated bm c d =
     modify (if map_of (case firstBucket bm c of None \<Rightarrow> bm
                        | Some b \<Rightarrow> modify bm b (\<lambda>s. s |-| {|c|}))
                  (destination d (firstBucket bm c)) = None
             then (case firstBucket bm c of None \<Rightarrow> bm
                   | Some b \<Rightarrow> modify bm b (\<lambda>s. s |-| {|c|}))
                  @ [(destination d (firstBucket bm c), {||})]
             else (case firstBucket bm c of None \<Rightarrow> bm
                   | Some b \<Rightarrow> modify bm b (\<lambda>s. s |-| {|c|})))
       (destination d (firstBucket bm c)) (finsert c)"
  by (simp add: updated_def Let_def)

lemma updated_places: "inBucket (updated bm c d) (destination d (firstBucket bm c)) c"
proof -
  define bm1 where "bm1 = (case firstBucket bm c of None \<Rightarrow> bm
      | Some b \<Rightarrow> modify bm b (\<lambda>s. s |-| {|c|}))"
  define nb where "nb = destination d (firstBucket bm c)"
  define bm2 where "bm2 = (if map_of bm1 nb = None then bm1 @ [(nb, {||})] else bm1)"
  have u: "updated bm c d = modify bm2 nb (finsert c)"
    by (simp only: updated_unfold bm1_def [symmetric] nb_def [symmetric] bm2_def [symmetric])
  have "map_of bm2 nb \<noteq> None"
    by (cases "map_of bm1 nb = None") (simp_all add: bm2_def map_add_def)
  then obtain s where "map_of bm2 nb = Some s" by auto
  then show ?thesis
    by (simp add: u nb_def [symmetric] inBucket_modify)
qed

lemma updated_others:
  assumes "x \<noteq> c"
  shows "inBucket (updated bm c d) k x \<longleftrightarrow> inBucket bm k x"
proof -
  define bm1 where "bm1 = (case firstBucket bm c of None \<Rightarrow> bm
      | Some b \<Rightarrow> modify bm b (\<lambda>s. s |-| {|c|}))"
  define nb where "nb = destination d (firstBucket bm c)"
  define bm2 where "bm2 = (if map_of bm1 nb = None then bm1 @ [(nb, {||})] else bm1)"
  have u: "updated bm c d = modify bm2 nb (finsert c)"
    by (simp only: updated_unfold bm1_def [symmetric] nb_def [symmetric] bm2_def [symmetric])
  have 1: "inBucket bm1 k x \<longleftrightarrow> inBucket bm k x"
  proof (cases "firstBucket bm c")
    case None
    then show ?thesis by (simp add: bm1_def)
  next
    case (Some b)
    have "inBucket (modify bm b (\<lambda>s. s |-| {|c|})) k x \<longleftrightarrow> inBucket bm k x"
      by (rule inBucket_modify_same) (use assms in simp)
    then show ?thesis by (simp add: bm1_def Some)
  qed
  have 2: "inBucket bm2 k x \<longleftrightarrow> inBucket bm1 k x"
    by (cases "map_of bm1 nb = None") (simp_all add: bm2_def inBucket_append_empty)
  have 3: "inBucket (modify bm2 nb (finsert c)) k x \<longleftrightarrow> inBucket bm2 k x"
    by (rule inBucket_modify_same) (use assms in simp)
  show ?thesis by (simp only: u 1 2 3)
qed

lemma updated_only:
  assumes d: "distinct (map fst bm)" and dj: "disjointSets (map snd bm)"
    and i: "inBucket (updated bm c d) k c"
  shows "k = destination d (firstBucket bm c)"
proof (rule ccontr)
  define bm1 where "bm1 = (case firstBucket bm c of None \<Rightarrow> bm
      | Some b \<Rightarrow> modify bm b (\<lambda>s. s |-| {|c|}))"
  define nb where "nb = destination d (firstBucket bm c)"
  define bm2 where "bm2 = (if map_of bm1 nb = None then bm1 @ [(nb, {||})] else bm1)"
  have u: "updated bm c d = modify bm2 nb (finsert c)"
    by (simp only: updated_unfold bm1_def [symmetric] nb_def [symmetric] bm2_def [symmetric])
  assume "k \<noteq> destination d (firstBucket bm c)"
  then have ne: "k \<noteq> nb" by (simp add: nb_def)
  from i have "inBucket bm2 k c" by (simp add: u inBucket_modify ne)
  then have i1: "inBucket bm1 k c"
    by (cases "map_of bm1 nb = None") (simp_all add: bm2_def inBucket_append_empty)
  show False
  proof (cases "firstBucket bm c")
    case None
    with i1 have "inBucket bm k c" by (simp add: bm1_def)
    with firstBucket_None [OF None] show False by simp
  next
    case (Some b)
    from firstBucket_Some [OF d Some] have ib: "inBucket bm b c" .
    from i1 have m: "inBucket (modify bm b (\<lambda>s. s |-| {|c|})) k c" by (simp add: bm1_def Some)
    show False
    proof (cases "k = b")
      case True
      with m show False by (simp add: inBucket_modify split: option.splits)
    next
      case False
      with m have "inBucket bm k c" by (simp add: inBucket_modify)
      from disjointSets_unique [OF d dj this ib] False show False by simp
    qed
  qed
qed

subsection \<open>Reading a store\<close>

lemma isSet_not_isMap: "isSet H a \<Longrightarrow> isMap H m \<Longrightarrow> a \<noteq> m"
  by (cases "H ! a") (auto simp: isSet_def isMap_def)

lemma setAt_append: "a < length h \<Longrightarrow> setAt (h @ ext) a = setAt h a"
  by (simp add: setAt_def nth_append)

lemma mapAt_append: "m < length h \<Longrightarrow> mapAt (h @ ext) m = mapAt h m"
  by (simp add: mapAt_def nth_append)

lemma isSet_append: "isSet h a \<Longrightarrow> isSet (h @ ext) a"
  by (simp add: isSet_def nth_append)

lemma setAt_update_set:
  "a < length H \<Longrightarrow> setAt (H[a := SetObj s]) b = (if b = a then s else setAt H b)"
  by (simp add: setAt_def nth_list_update)

lemma mapAt_update_other: "a \<noteq> m \<Longrightarrow> mapAt (H[a := ob]) m = mapAt H m"
  by (simp add: mapAt_def)

lemma isSet_update_set: "isSet H b \<Longrightarrow> isSet (H[a := SetObj s]) b"
  by (cases "a = b") (simp_all add: isSet_def nth_list_update)

lemma isMap_update_set: "isSet H a \<Longrightarrow> isMap H m \<Longrightarrow> isMap (H[a := SetObj s]) m"
  using isSet_not_isMap [of H a m] by (simp add: isMap_def)

lemma pair_unique_value:
  "distinct (map fst es) \<Longrightarrow> (k, a) \<in> set es \<Longrightarrow> (k, b) \<in> set es \<Longrightarrow> a = b"
  using map_of_eq_Some_iff [of es k] by (metis option.inject)

lemma pair_unique_key:
  assumes "distinct (map snd es)" and "(k, a) \<in> set es" and "(j, a) \<in> set es"
  shows "k = j"
proof -
  from assms(1) have "inj_on snd (set es)" by (simp add: distinct_map)
  from inj_onD [OF this _ assms(2,3)] show ?thesis by simp
qed


subsection \<open>Mutating a set of the new map\<close>

lemma builtOn_modify:
  assumes b: "builtOn h H m" and g: "map_of (mapAt H m) k = Some a"
  shows "builtOn h (H[a := SetObj (f (setAt H a))]) m"
    and "contents (H[a := SetObj (f (setAt H a))]) m = modify (contents H m) k f"
proof -
  let ?H = "H[a := SetObj (f (setAt H a))]"
  from b have pre: "take (length h) H = h" and lm: "length h \<le> m" and wf: "wellFormed H m"
    and da: "distinct (map snd (mapAt H m))"
    and fr: "\<forall>a \<in> set (map snd (mapAt H m)). length h \<le> a"
    by (simp_all add: builtOn_def)
  from wf have im: "isMap H m" and dk: "distinct (map fst (mapAt H m))"
    and sets: "\<forall>a \<in> set (map snd (mapAt H m)). isSet H a"
    by (simp_all add: wellFormed_def)
  from g have mem: "(k, a) \<in> set (mapAt H m)" by (rule map_of_SomeD)
  then have am: "a \<in> set (map snd (mapAt H m))" by force
  with sets have sa: "isSet H a" by auto
  then have al: "a < length H" by (simp add: isSet_def)
  from sa im have ne: "a \<noteq> m" by (rule isSet_not_isMap)
  from am fr have ha: "length h \<le> a" by auto
  have ma: "mapAt ?H m = mapAt H m" using ne by (rule mapAt_update_other)
  have "take (length h) ?H = h" using ha pre by simp
  moreover have "wellFormed ?H m"
    unfolding wellFormed_def ma
    using isMap_update_set [OF sa im] dk sets by (simp add: isSet_update_set)
  ultimately show "builtOn h ?H m"
    unfolding builtOn_def ma using lm da fr by simp
  have "map (\<lambda>(j, b). (j, setAt ?H b)) (mapAt H m)
      = map (\<lambda>(j, b). if j = k then (j, f (setAt H b)) else (j, setAt H b)) (mapAt H m)"
  proof (rule map_cong [OF refl])
    fix e
    assume e: "e \<in> set (mapAt H m)"
    obtain j b where jb: "e = (j, b)" by (cases e)
    have "b = a \<longleftrightarrow> j = k"
    proof
      assume "b = a"
      with e jb have "(j, a) \<in> set (mapAt H m)" by simp
      from pair_unique_key [OF da this mem] show "j = k" .
    next
      assume "j = k"
      with e jb have "(k, b) \<in> set (mapAt H m)" by simp
      from pair_unique_value [OF dk this mem] show "b = a" .
    qed
    then show "(case e of (j, b) \<Rightarrow> (j, setAt ?H b))
        = (case e of (j, b) \<Rightarrow> if j = k then (j, f (setAt H b)) else (j, setAt H b))"
      by (auto simp: jb setAt_update_set [OF al])
  qed
  then show "contents ?H m = modify (contents H m) k f"
    by (simp add: contents_def ma modify_def case_prod_beta comp_def)
qed

subsection \<open>Adding a bucket to the new map\<close>

lemma builtOn_add:
  assumes b: "builtOn h H m" and g: "map_of (mapAt H m) k = None"
  defines "H' \<equiv> (H @ [SetObj {||}])[m := MapObj (mapSet (mapAt (H @ [SetObj {||}]) m) k (length H))]"
  shows "builtOn h H' m" and "contents H' m = contents H m @ [(k, {||})]"
    and "mapAt H' m = mapAt H m @ [(k, length H)]"
proof -
  from b have pre: "take (length h) H = h" and lm: "length h \<le> m" and wf: "wellFormed H m"
    and da: "distinct (map snd (mapAt H m))"
    and fr: "\<forall>a \<in> set (map snd (mapAt H m)). length h \<le> a"
    by (simp_all add: builtOn_def)
  from wf have im: "isMap H m" and dk: "distinct (map fst (mapAt H m))"
    and sets: "\<forall>a \<in> set (map snd (mapAt H m)). isSet H a"
    by (simp_all add: wellFormed_def)
  from im have ml: "m < length H" by (simp add: isMap_def)
  from g have nk: "k \<notin> fst ` set (mapAt H m)" by (simp add: map_of_eq_None_iff)
  have H': "H' = (H @ [SetObj {||}])[m := MapObj (mapAt H m @ [(k, length H)])]"
    by (simp add: H'_def mapAt_append [OF ml] mapSet_fresh [OF nk])
  have len: "length H' = Suc (length H)" by (simp add: H')
  show ma: "mapAt H' m = mapAt H m @ [(k, length H)]"
    using ml by (simp add: H' mapAt_def)
  have old: "setAt H' a = setAt H a \<and> isSet H' a" if "a \<in> set (map snd (mapAt H m))" for a
  proof -
    from that sets have sa: "isSet H a" by auto
    then have al: "a < length H" by (simp add: isSet_def)
    from sa im have "a \<noteq> m" by (rule isSet_not_isMap)
    then have "H' ! a = H ! a" using al by (simp add: H' nth_append)
    with al sa show ?thesis by (simp add: setAt_def isSet_def len)
  qed
  have new: "setAt H' (length H) = {||} \<and> isSet H' (length H)"
    using ml by (simp add: H' setAt_def isSet_def)
  have notin: "length H \<notin> set (map snd (mapAt H m))"
  proof
    assume "length H \<in> set (map snd (mapAt H m))"
    with sets have "isSet H (length H)" by auto
    then show False by (simp add: isSet_def)
  qed
  have "take (length h) H' = h"
    using lm ml pre by (simp add: H')
  moreover have "isMap H' m" using ml by (simp add: H' isMap_def)
  moreover have "distinct (map fst (mapAt H' m))" using dk nk by (simp add: ma)
  moreover have "\<forall>a \<in> set (map snd (mapAt H' m)). isSet H' a"
    using old new by (auto simp: ma)
  moreover have "distinct (map snd (mapAt H' m))" using da notin by (simp add: ma)
  moreover have "\<forall>a \<in> set (map snd (mapAt H' m)). length h \<le> a"
    using fr lm ml by (auto simp: ma)
  ultimately show "builtOn h H' m"
    using lm by (simp add: builtOn_def wellFormed_def)
  have "map (\<lambda>(j, b). (j, setAt H' b)) (mapAt H m) = map (\<lambda>(j, b). (j, setAt H b)) (mapAt H m)"
    by (rule map_cong [OF refl]) (use old in force)
  then show "contents H' m = contents H m @ [(k, {||})]"
    using new by (simp add: contents_def ma)
qed

subsection \<open>The deep copy\<close>

lemma upt_shift_Suc: "[n ..< n + Suc k] = n # [Suc n ..< Suc n + k]"
  by (simp add: upt_rec)

lemma copySets_eq:
  assumes "\<forall>a \<in> set (map snd es). isSet h a"
  shows "copySets h es =
      (h @ map (\<lambda>(k, a). SetObj (setAt h a)) es,
       zip (map fst es) [length h ..< length h + length es])"
  using assms
proof (induction es arbitrary: h)
  case Nil
  then show ?case by simp
next
  case (Cons e es)
  obtain k a where e: "e = (k, a)" by (cases e)
  let ?h1 = "h @ [SetObj (setAt h a)]"
  from Cons.prems have old: "\<forall>b \<in> set (map snd es). isSet h b" by (simp add: e)
  then have "\<forall>b \<in> set (map snd es). isSet ?h1 b" by (auto intro: isSet_append)
  from Cons.IH [OF this]
  have ih: "copySets ?h1 es =
      (?h1 @ map (\<lambda>(k, a). SetObj (setAt ?h1 a)) es,
       zip (map fst es) [length ?h1 ..< length ?h1 + length es])" .
  have same: "map (\<lambda>(k, b). SetObj (setAt ?h1 b)) es = map (\<lambda>(k, b). SetObj (setAt h b)) es"
  proof (rule map_cong [OF refl])
    fix x
    assume x: "x \<in> set es"
    obtain j b where jb: "x = (j, b)" by (cases x)
    with x have "b \<in> set (map snd es)" by force
    with old have "isSet h b" by auto
    then have "b < length h" by (simp add: isSet_def)
    then show "(case x of (k, b) \<Rightarrow> SetObj (setAt ?h1 b)) = (case x of (k, b) \<Rightarrow> SetObj (setAt h b))"
      by (simp add: jb setAt_append)
  qed
  have up: "[length h ..< length h + length (e # es)]
      = length h # [length ?h1 ..< length ?h1 + length es]"
    using upt_shift_Suc [of "length h" "length es"] by simp
  show ?case
    unfolding up
    by (simp add: e alloc_def ih same del: upt_Suc)
qed

lemma newMap_append:
  "distinct (map fst (acc @ ps)) \<Longrightarrow> foldl (\<lambda>m (k, v). mapSet m k v) acc ps = acc @ ps"
proof (induction ps arbitrary: acc)
  case Nil
  then show ?case by simp
next
  case (Cons p ps)
  obtain k v where p: "p = (k, v)" by (cases p)
  from Cons.prems have "k \<notin> fst ` set acc" by (auto simp: p)
  then have s: "mapSet acc k v = acc @ [(k, v)]" by (rule mapSet_fresh)
  from Cons.prems have "distinct (map fst ((acc @ [(k, v)]) @ ps))" by (simp add: p)
  from Cons.IH [OF this] show ?case by (simp add: p s)
qed

lemma newMap_distinct: "distinct (map fst ps) \<Longrightarrow> newMap ps = ps"
  using newMap_append [of "[]" ps] by (simp add: newMap_def)

lemma mapAt_nth: "a < length H \<Longrightarrow> H ! a = MapObj es \<Longrightarrow> mapAt H a = es"
  by (simp add: mapAt_def)

lemma setAt_nth: "a < length H \<Longrightarrow> H ! a = SetObj s \<Longrightarrow> setAt H a = s"
  by (simp add: setAt_def)

lemma isSet_nth: "a < length H \<Longrightarrow> H ! a = SetObj s \<Longrightarrow> isSet H a"
  by (simp add: isSet_def)

lemma isMap_nth: "a < length H \<Longrightarrow> H ! a = MapObj es \<Longrightarrow> isMap H a"
  by (simp add: isMap_def)

lemma copyBuckets_builtOn:
  assumes wf: "wellFormed h m" and cp: "copyBuckets h m = (H, m')"
  shows "builtOn h H m'" and "contents H m' = contents h m"
proof -
  let ?es = "mapAt h m"
  let ?n = "length h"
  let ?ext = "map (\<lambda>(k, a). SetObj (setAt h a)) ?es"
  let ?pairs = "zip (map fst ?es) [?n ..< ?n + length ?es]"
  from wf have dk: "distinct (map fst ?es)" and sets: "\<forall>a \<in> set (map snd ?es). isSet h a"
    by (simp_all add: wellFormed_def)
  have fp: "map fst ?pairs = map fst ?es" and sp: "map snd ?pairs = [?n ..< ?n + length ?es]"
    by simp_all
  have nm: "newMap ?pairs = ?pairs"
    by (rule newMap_distinct) (simp only: fp dk)
  have "copyBuckets h m = (h @ ?ext @ [MapObj ?pairs], ?n + length ?es)"
    by (simp add: copyBuckets_def copySets_eq [OF sets] alloc_def nm)
  with cp have H: "H = h @ ?ext @ [MapObj ?pairs]" and m': "m' = ?n + length ?es"
    by auto
  have Hm: "H ! m' = MapObj ?pairs"
    by (simp add: H m' nth_append)
  have lenH: "length H = Suc (?n + length ?es)" by (simp add: H)
  have m'l: "m' < length H" by (simp add: lenH m')
  have ma: "mapAt H m' = ?pairs"
    using m'l Hm by (rule mapAt_nth)
  have at: "H ! (?n + i) = SetObj (setAt h (snd (?es ! i)))" if "i < length ?es" for i
    using that by (simp add: H nth_append case_prod_beta)
  have sat: "setAt H (?n + i) = setAt h (snd (?es ! i))" if "i < length ?es" for i
    by (rule setAt_nth [OF _ at [OF that]]) (use that in \<open>simp add: lenH\<close>)
  have iss: "isSet H (?n + i)" if "i < length ?es" for i
    by (rule isSet_nth [OF _ at [OF that]]) (use that in \<open>simp add: lenH\<close>)
  have allset: "\<forall>a \<in> set (map snd (mapAt H m')). isSet H a"
  proof
    fix a
    assume "a \<in> set (map snd (mapAt H m'))"
    then have "?n \<le> a" "a < ?n + length ?es" by (simp_all add: ma)
    then obtain i where "a = ?n + i" "i < length ?es"
      by (metis add_diff_inverse_nat less_diff_conv2 not_less add.commute)
    with iss show "isSet H a" by simp
  qed
  have "take ?n H = h" by (simp add: H)
  moreover have "isMap H m'" using m'l Hm by (rule isMap_nth)
  moreover have "distinct (map fst (mapAt H m'))" by (simp only: ma fp dk)
  moreover have "distinct (map snd (mapAt H m'))" by (simp only: ma sp distinct_upt)
  moreover have "\<forall>a \<in> set (map snd (mapAt H m')). ?n \<le> a" by (simp add: ma)
  ultimately show "builtOn h H m'"
    using allset by (simp add: builtOn_def wellFormed_def m')
  show "contents H m' = contents h m"
  proof (rule nth_equalityI)
    show "length (contents H m') = length (contents h m)"
      by (simp add: contents_def ma)
  next
    fix i
    assume "i < length (contents H m')"
    then have i: "i < length ?es" by (simp add: contents_def ma)
    then have "contents H m' ! i = (fst (?es ! i), setAt H (?n + i))"
      by (simp add: contents_def ma)
    also have "\<dots> = (fst (?es ! i), setAt h (snd (?es ! i)))"
      by (simp only: sat [OF i])
    also have "\<dots> = contents h m ! i"
      using i by (simp add: contents_def case_prod_beta)
    finally show "contents H m' ! i = contents h m ! i" .
  qed
qed

subsection \<open>The scan, the missing bucket and the insertion\<close>

lemma map_of_contents:
  "map_of (contents H m) k = map_option (setAt H) (map_of (mapAt H m) k)"
  by (simp add: contents_def map_of_map)

lemma findCard_fst:
  "map_option fst (findCard H es c) = firstBucket (map (\<lambda>(k, a). (k, setAt H a)) es) c"
  by (induction es) auto

lemma findCard_mem: "findCard H es c = Some (b, a) \<Longrightarrow> (b, a) \<in> set es"
  by (induction es) (auto split: if_splits)

lemma modify_absent: "map_of bm k = None \<Longrightarrow> modify bm k f = bm"
proof -
  assume "map_of bm k = None"
  then have "k \<notin> fst ` set bm" by (simp add: map_of_eq_None_iff)
  then have "map (\<lambda>(k', s). if k' = k then (k', f s) else (k', s)) bm = map (\<lambda>e. e) bm"
    by (intro map_cong [OF refl]) force
  then show ?thesis by (simp add: modify_def)
qed

lemma removeCard_refines:
  assumes b: "builtOn h H m'" and r: "removeCard H m' c = (H', found)"
  shows "builtOn h H' m'"
    and "found = firstBucket (contents H m') c"
    and "contents H' m' =
      (case found of None \<Rightarrow> contents H m'
       | Some bucket \<Rightarrow> modify (contents H m') bucket (\<lambda>s. s |-| {|c|}))"
proof -
  from b have dk: "distinct (map fst (mapAt H m'))"
    by (simp add: builtOn_def wellFormed_def)
  have fb: "map_option fst (findCard H (mapAt H m') c) = firstBucket (contents H m') c"
    by (simp only: findCard_fst contents_def)
  show "builtOn h H' m'" and "found = firstBucket (contents H m') c"
    and "contents H' m' =
      (case found of None \<Rightarrow> contents H m'
       | Some bucket \<Rightarrow> modify (contents H m') bucket (\<lambda>s. s |-| {|c|}))"
  proof (atomize (full), cases "findCard H (mapAt H m') c")
    case None
    with r have "H' = H" "found = None" by (simp_all add: removeCard_def)
    with b fb None show "builtOn h H' m' \<and> found = firstBucket (contents H m') c \<and>
      contents H' m' = (case found of None \<Rightarrow> contents H m'
       | Some bucket \<Rightarrow> modify (contents H m') bucket (\<lambda>s. s |-| {|c|}))"
      by simp
  next
    case (Some e)
    obtain bk a where e: "e = (bk, a)" by (cases e)
    from r Some e have H': "H' = H[a := SetObj (setAt H a |-| {|c|})]" and f: "found = Some bk"
      by (simp_all add: removeCard_def)
    from Some e have "(bk, a) \<in> set (mapAt H m')" by (simp add: findCard_mem)
    with dk have g: "map_of (mapAt H m') bk = Some a" by simp
    from fb Some e f have "found = firstBucket (contents H m') c" by simp
    with builtOn_modify [OF b g, of "\<lambda>s. s |-| {|c|}"] H' f
    show "builtOn h H' m' \<and> found = firstBucket (contents H m') c \<and>
      contents H' m' = (case found of None \<Rightarrow> contents H m'
       | Some bucket \<Rightarrow> modify (contents H m') bucket (\<lambda>s. s |-| {|c|}))"
      by simp
  qed
qed

lemma ensureBucket_refines:
  assumes b: "builtOn h H m'"
  shows "builtOn h (ensureBucket H m' k) m'"
    and "contents (ensureBucket H m' k) m' =
      (if map_of (contents H m') k = None then contents H m' @ [(k, {||})] else contents H m')"
proof -
  have n: "map_of (contents H m') k = None \<longleftrightarrow> map_of (mapAt H m') k = None"
    by (simp add: map_of_contents)
  show "builtOn h (ensureBucket H m' k) m'"
  proof (cases "map_of (mapAt H m') k")
    case None
    from builtOn_add(1) [OF b None] show ?thesis
      by (simp add: ensureBucket_def None alloc_def)
  next
    case (Some a)
    with b show ?thesis by (simp add: ensureBucket_def)
  qed
  show "contents (ensureBucket H m' k) m' =
      (if map_of (contents H m') k = None then contents H m' @ [(k, {||})] else contents H m')"
  proof (cases "map_of (mapAt H m') k")
    case None
    from builtOn_add(2) [OF b None] show ?thesis
      by (simp add: ensureBucket_def None alloc_def n)
  next
    case (Some a)
    then show ?thesis by (simp add: ensureBucket_def n)
  qed
qed

lemma addCard_refines:
  assumes b: "builtOn h H m'"
  shows "builtOn h (addCard H m' k c) m'"
    and "contents (addCard H m' k c) m' = modify (contents H m') k (finsert c)"
proof -
  show "builtOn h (addCard H m' k c) m'"
  proof (cases "map_of (mapAt H m') k")
    case None
    with b show ?thesis by (simp add: addCard_def)
  next
    case (Some a)
    from builtOn_modify(1) [OF b Some, of "finsert c"] show ?thesis
      by (simp add: addCard_def Some)
  qed
  show "contents (addCard H m' k c) m' = modify (contents H m') k (finsert c)"
  proof (cases "map_of (mapAt H m') k")
    case None
    then have "map_of (contents H m') k = None" by (simp add: map_of_contents)
    then have "modify (contents H m') k (finsert c) = contents H m'" by (rule modify_absent)
    then show ?thesis by (simp add: addCard_def None)
  next
    case (Some a)
    from builtOn_modify(2) [OF b Some, of "finsert c"] show ?thesis
      by (simp add: addCard_def Some)
  qed
qed

subsection \<open>The whole call\<close>

lemma update_refines:
  assumes wf: "wellFormed h m" and u: "update h m c d = (H', m')"
  shows "builtOn h H' m'" and "contents H' m' = updated (contents h m) c d"
proof -
  obtain H1 m1 where cp: "copyBuckets h m = (H1, m1)" by (cases "copyBuckets h m")
  obtain H2 found where rm: "removeCard H1 m1 c = (H2, found)" by (cases "removeCard H1 m1 c")
  define nb where "nb = destination d found"
  define H3 where "H3 = ensureBucket H2 m1 nb"
  have "update h m c d = (addCard H3 m1 nb c, m1)"
    by (simp add: update_def cp rm nb_def H3_def Let_def)
  with u have H': "H' = addCard H3 m1 nb c" and m': "m' = m1"
    by auto
  note b1 = copyBuckets_builtOn(1) [OF wf cp] and c1 = copyBuckets_builtOn(2) [OF wf cp]
  note b2 = removeCard_refines(1) [OF b1 rm]
  have f: "found = firstBucket (contents h m) c"
    using removeCard_refines(2) [OF b1 rm] by (simp only: c1)
  have c2: "contents H2 m1 =
      (case firstBucket (contents h m) c of None \<Rightarrow> contents h m
       | Some bucket \<Rightarrow> modify (contents h m) bucket (\<lambda>s. s |-| {|c|}))"
    using removeCard_refines(3) [OF b1 rm] by (simp only: c1 f)
  have b3: "builtOn h H3 m1" unfolding H3_def using b2 by (rule ensureBucket_refines(1))
  have c3: "contents H3 m1 =
      (if map_of (contents H2 m1) nb = None then contents H2 m1 @ [(nb, {||})]
       else contents H2 m1)"
    unfolding H3_def using b2 by (rule ensureBucket_refines(2))
  show "builtOn h H' m'"
    unfolding H' m' using b3 by (rule addCard_refines(1))
  have "contents H' m' = modify (contents H3 m1) nb (finsert c)"
    unfolding H' m' using b3 by (rule addCard_refines(2))
  then show "contents H' m' = updated (contents h m) c d"
    by (simp only: c3 c2 nb_def f updated_unfold)
qed

subsection \<open>The current bucket\<close>

lemma keys_contents: "map fst (contents h m) = map fst (mapAt h m)"
  by (simp add: contents_def case_prod_beta comp_def)

lemma wellFormed_distinct: "wellFormed h m \<Longrightarrow> distinct (map fst (contents h m))"
  by (simp add: keys_contents wellFormed_def)



lemma contents_unchanged:
  assumes wf: "wellFormed h m" and pre: "take (length h) H = h"
  shows "contents H m = contents h m"
proof -
  from pre have H: "H = h @ drop (length h) H"
    by (metis append_take_drop_id)
  from wf have ml: "m < length h" and sets: "\<forall>a \<in> set (map snd (mapAt h m)). isSet h a"
    by (simp_all add: wellFormed_def isMap_def)
  have ma: "mapAt H m = mapAt h m"
    by (subst H) (rule mapAt_append [OF ml])
  have "map (\<lambda>(k, a). (k, setAt H a)) (mapAt h m) = map (\<lambda>(k, a). (k, setAt h a)) (mapAt h m)"
  proof (rule map_cong [OF refl])
    fix e
    assume e: "e \<in> set (mapAt h m)"
    obtain k a where ka: "e = (k, a)" by (cases e)
    with e have "a \<in> set (map snd (mapAt h m))" by force
    with sets have "isSet h a" by auto
    then have "a < length h" by (simp add: isSet_def)
    then have "setAt (h @ drop (length h) H) a = setAt h a" by (rule setAt_append)
    then have "setAt H a = setAt h a" by (simp only: H [symmetric])
    then show "(case e of (k, a) \<Rightarrow> (k, setAt H a)) = (case e of (k, a) \<Rightarrow> (k, setAt h a))"
      by (simp add: ka)
  qed
  then show ?thesis by (simp add: contents_def ma)
qed


text \<open>
  Claim C2. When each card occupies at most one bucket of the mapping, \<^verbatim>\<open>update\<close> leaves
  every object of the caller's store as it was, so the input mapping and its sets denote
  what they denoted; the returned mapping is a new object that has the card in exactly
  one bucket and every other card in exactly the buckets it had before.
\<close>

theorem update_frame:
  assumes "wellFormed h m" and "disjointSets (map snd (contents h m))"
    and "update h m c d = (h', m')"
  shows "take (length h) h' = h
    \<and> contents h' m = contents h m
    \<and> length h \<le> m'
    \<and> (\<exists>k. \<forall>j. inBucket (contents h' m') j c \<longleftrightarrow> j = k)
    \<and> (\<forall>x k. x \<noteq> c \<longrightarrow> inBucket (contents h' m') k x = inBucket (contents h m) k x)"
proof -
  note dk = wellFormed_distinct [OF assms(1)]
  note b = update_refines(1) [OF assms(1,3)] and r = update_refines(2) [OF assms(1,3)]
  from b have pre: "take (length h) h' = h" and new: "length h \<le> m'"
    by (simp_all add: builtOn_def)
  have same: "contents h' m = contents h m"
    using assms(1) pre by (rule contents_unchanged)
  have one: "inBucket (contents h' m') j c \<longleftrightarrow> j = destination d (firstBucket (contents h m) c)"
    for j
  proof
    assume "inBucket (contents h' m') j c"
    then have "inBucket (updated (contents h m) c d) j c" by (simp only: r)
    with dk assms(2) show "j = destination d (firstBucket (contents h m) c)"
      by (rule updated_only)
  next
    assume "j = destination d (firstBucket (contents h m) c)"
    then show "inBucket (contents h' m') j c"
      by (simp only: r updated_places)
  qed
  then have ex: "\<exists>k. \<forall>j. inBucket (contents h' m') j c \<longleftrightarrow> j = k"
    by (intro exI [of _ "destination d (firstBucket (contents h m) c)"] allI)
  have others: "\<forall>x k. x \<noteq> c \<longrightarrow> inBucket (contents h' m') k x = inBucket (contents h m) k x"
    by (simp add: r updated_others)
  show ?thesis
    by (rule conjI [OF pre conjI [OF same conjI [OF new conjI [OF ex others]]]])
qed

lemma example_wellFormed: "wellFormed exampleStore 2"
  by (simp add: wellFormed_def exampleStore_def isMap_def isSet_def mapAt_def)

lemma example_contents: "contents exampleStore 2 = [(0, {||}), (2, {|10|})]"
  by (simp add: contents_def exampleStore_def mapAt_def setAt_def)

lemma example_disjoint: "disjointSets (map snd (contents exampleStore 2))"
  by (simp add: example_contents)

lemma example_update: "update exampleStore 2 10 Easy = (exampleResult, 5)"
  by code_simp

lemma example_result_contents:
  "contents exampleResult 5 = [(0, {||}), (2, {||}), (3, {|10|})]"
  by (simp add: contents_def exampleResult_def mapAt_def setAt_def)


text \<open>The same call: the first three objects of the store are the caller's.\<close>

theorem update_frame_witness:
  "take 3 exampleResult = exampleStore
   \<and> contents exampleResult 2 = contents exampleStore 2
   \<and> inBucket (contents exampleResult 5) 3 10
   \<and> \<not> inBucket (contents exampleResult 5) 2 10"
proof -
  note f = update_frame [OF example_wellFormed example_disjoint example_update]
  have len: "length exampleStore = 3" by (simp add: exampleStore_def)
  from f have 1: "take 3 exampleResult = exampleStore" by (simp only: len)
  from f have 2: "contents exampleResult 2 = contents exampleStore 2" by (elim conjE)
  from f obtain k where k: "\<forall>j. inBucket (contents exampleResult 5) j 10 \<longleftrightarrow> j = k"
    by (elim conjE exE)
  have 3: "inBucket (contents exampleResult 5) 3 10"
    by (simp add: example_result_contents inBucket_def)
  with k have "k = 3" by simp
  with k have 4: "\<not> inBucket (contents exampleResult 5) 2 10" by simp
  show ?thesis by (rule conjI [OF 1 conjI [OF 2 conjI [OF 3 4]]])
qed

end
